theory Spec2Isabelle
  imports Complex_Main "HOL-Library.Word"
begin

unbundle bit_operations_syntax

section \<open>Modular exponentiation: naive, binary and windowed (exponentiation.py)\<close>

text \<open>
  Python integers are unbounded. The base \<open>x\<close> and the modulus \<open>mod\<close> are modelled as
  \<open>int\<close>; Isabelle's \<open>mod\<close> on \<open>int\<close> rounds like Python's \<open>%\<close> (the result has the sign of
  the divisor), except that Python raises \<open>ZeroDivisionError\<close> for a zero divisor.
  The exponent (\<open>exp\<close> in the source, \<open>e\<close> here: \<open>exp\<close> is the exponential function of
  HOL) is a non-negative integer (spec, section 3) and is modelled as \<open>nat\<close>,
  as are bit positions, window lengths, window values (they are extracted from the
  exponent by shifting and masking) and the size parameter of a partitioner. On
  non-negative integers Python's \<open>&\<close>, \<open><<\<close> and \<open>>>\<close> are \<open>AND\<close>, \<open>push_bit\<close> and
  \<open>drop_bit\<close>.
\<close>

subsection \<open>Errors\<close>

text \<open>
  \<open>InvalidParameter\<close> is the \<open>Exception\<close> raised explicitly by the two partitioners
  (the spec's name for it); the other two are raised by the Python runtime.
\<close>

datatype error = InvalidParameter | ZeroDivisionError | IndexError

definition py_mod :: "int \<Rightarrow> int \<Rightarrow> error + int" where
  "py_mod a m = (if m = 0 then Inl ZeroDivisionError else Inr (a mod m))"

definition py_index :: "'a list \<Rightarrow> nat \<Rightarrow> error + 'a" where
  "py_index xs i = (if i < length xs then Inr (xs ! i) else Inl IndexError)"

subsection \<open>Bit length\<close>

text \<open>Python's \<open>int.bit_length()\<close> on a non-negative integer.\<close>

fun bit_length :: "nat \<Rightarrow> nat" where
  "bit_length n = (if n = 0 then 0 else Suc (bit_length (n div 2)))"

declare bit_length.simps [simp del]

subsection \<open>pow_step_by_step\<close>

text \<open>
  \<^verbatim>\<open>y = 1
  for i in range(0, exp):
      y = (y * x) % mod
  return y\<close>
  The loop runs \<open>exp\<close> times; \<open>naive_loop n\<close> is the remaining \<open>n\<close> iterations.
\<close>

fun naive_loop :: "nat \<Rightarrow> int \<Rightarrow> int \<Rightarrow> int \<Rightarrow> error + int" where
  "naive_loop 0 x m y = Inr y"
| "naive_loop (Suc n) x m y =
     (case py_mod (y * x) m of Inl err \<Rightarrow> Inl err | Inr y' \<Rightarrow> naive_loop n x m y')"

definition pow_step_by_step :: "int \<Rightarrow> nat \<Rightarrow> int \<Rightarrow> error + int" where
  "pow_step_by_step x e m = naive_loop e x m 1"

subsection \<open>pow_binary\<close>

text \<open>
  \<^verbatim>\<open>y = 1
  while exp != 0:
      if (exp % 2) != 0:
          y = (y * x) % mod
          exp = exp - 1
      exp = exp >> 1
      x = (x * x) % mod
  return y\<close>
\<close>

function binary_loop :: "int \<Rightarrow> nat \<Rightarrow> int \<Rightarrow> int \<Rightarrow> error + int" where
  "binary_loop x e m y =
     (if e \<noteq> 0 then
        (if e mod 2 \<noteq> 0 then
           (case py_mod (y * x) m of
              Inl err \<Rightarrow> Inl err
            | Inr y' \<Rightarrow>
                (case py_mod (x * x) m of
                   Inl err \<Rightarrow> Inl err
                 | Inr x' \<Rightarrow> binary_loop x' (drop_bit 1 (e - 1)) m y'))
         else
           (case py_mod (x * x) m of
              Inl err \<Rightarrow> Inl err
            | Inr x' \<Rightarrow> binary_loop x' (drop_bit 1 e) m y))
      else Inr y)"
  by pat_completeness auto
termination
  by (relation "measure (\<lambda>(x, e, m, y). e)") (auto simp: drop_bit_eq_div)

declare binary_loop.simps [simp del]

definition pow_binary :: "int \<Rightarrow> nat \<Rightarrow> int \<Rightarrow> error + int" where
  "pow_binary x e m = binary_loop x e m 1"

subsection \<open>Windows\<close>

text \<open>
  A window is the dictionary \<^verbatim>\<open>{"value": v, "length": l}\<close>. A partitioner returns the
  list of windows, least significant first, and the largest window length.
\<close>

record window =
  w_value :: nat
  w_length :: nat

type_synonym partition = "window list \<times> nat"

subsection \<open>partition_window_same_width\<close>

text \<open>
  \<^verbatim>\<open>if window_size >= exp.bit_length():
      raise Exception("window_size is bigger than or equal to exp")
  window_partitions = [
      { "value": ((1 << window_size) - 1) & (exp >> i * window_size),
        "length": window_size }
      for i in range(0, math.ceil(exp.bit_length() / window_size)) ]
  max_window_partition_length = window_size
  return [ window_partitions, max_window_partition_length ]\<close>
  The quotient \<open>exp.bit_length() / window_size\<close> is a floating-point division; it is
  exact enough for \<open>math.ceil\<close> to give the mathematical ceiling for every bit length
  below \<open>2 ^ 53\<close>, and is modelled by the ceiling of the real quotient. A window size
  of \<open>0\<close> passes the guard when the exponent is not \<open>0\<close> and the division raises.
\<close>

definition same_width_window :: "nat \<Rightarrow> nat \<Rightarrow> nat \<Rightarrow> window" where
  "same_width_window e window_size i =
     \<lparr>w_value = (push_bit window_size 1 - 1) AND drop_bit (i * window_size) e,
      w_length = window_size\<rparr>"

definition partition_window_same_width :: "nat \<Rightarrow> nat \<Rightarrow> error + partition" where
  "partition_window_same_width e window_size =
     (if window_size \<ge> bit_length e then Inl InvalidParameter
      else if window_size = 0 then Inl ZeroDivisionError
      else Inr (map (same_width_window e window_size)
                  [0..<nat \<lceil>real (bit_length e) / real window_size\<rceil>],
                window_size))"

subsection \<open>partition_window_clnw\<close>

text \<open>
  The local variables of the scan. The source calls the last one \<open>length\<close>.
\<close>

record clnw_state =
  window_partitions :: "window list"
  max_length :: nat
  position :: nat
  cur_length :: nat

text \<open>
  The zero-word scan
  \<^verbatim>\<open>while not exp & 1 << position:
      position = position + 1
      length = length + 1\<close>
  has no bound of its own: it stops at the first set bit at or above \<open>position\<close> and
  runs forever when there is none. \<open>None\<close> stands for not returning.
\<close>

partial_function (option) zw_scan :: "nat \<Rightarrow> nat \<Rightarrow> nat \<Rightarrow> (nat \<times> nat) option" where
  "zw_scan e pos len =
     (if e AND push_bit pos 1 = 0 then zw_scan e (pos + 1) (len + 1)
      else Some (pos, len))"

declare zw_scan.simps [code]

text \<open>
  The nonzero-word scan
  \<^verbatim>\<open>while length < nonzero_window_size:
      position = position + 1
      length = length + 1\<close>
\<close>

function nw_scan :: "nat \<Rightarrow> nat \<Rightarrow> nat \<Rightarrow> nat \<times> nat" where
  "nw_scan nonzero_window_size pos len =
     (if len < nonzero_window_size then nw_scan nonzero_window_size (pos + 1) (len + 1)
      else (pos, len))"
  by pat_completeness auto
termination
  by (relation "measure (\<lambda>(d, pos, len). d - len)") auto

declare nw_scan.simps [simp del]

text \<open>
  One iteration of the outer loop, entered with \<open>position < exp.bit_length()\<close>:
  \<^verbatim>\<open>if not exp & 1 << position:
      <zero-word scan>
      window_partitions.append({"value": 0, "length": length})
      max_length = max(max_length, length); length = 0
  else:
      <nonzero-word scan>
      value = exp >> (position - length) & ((1 << length) - 1)
      window_partitions.append({"value": value, "length": length})
      max_length = max(max_length, length); length = 0\<close>
  In the shift \<open>position - length\<close> is the position at which the window started
  (\<open>length\<close> never exceeds \<open>position\<close>: both start at \<open>0\<close> and are incremented together).
\<close>

definition clnw_body :: "nat \<Rightarrow> nat \<Rightarrow> clnw_state \<Rightarrow> clnw_state option" where
  "clnw_body e nonzero_window_size s =
     (if e AND push_bit (position s) 1 = 0 then
        (case zw_scan e (position s) (cur_length s) of
           None \<Rightarrow> None
         | Some (pos, len) \<Rightarrow>
             Some \<lparr>window_partitions =
                     window_partitions s @ [\<lparr>w_value = 0, w_length = len\<rparr>],
                   max_length = max (max_length s) len,
                   position = pos, cur_length = 0\<rparr>)
      else
        (case nw_scan nonzero_window_size (position s) (cur_length s) of
           (pos, len) \<Rightarrow>
             Some \<lparr>window_partitions =
                     window_partitions s @
                       [\<lparr>w_value = drop_bit (pos - len) e AND (push_bit len 1 - 1),
                         w_length = len\<rparr>],
                   max_length = max (max_length s) len,
                   position = pos, cur_length = 0\<rparr>))"

text \<open>
  \<^verbatim>\<open>while position < exp.bit_length(): <body>\<close>
  The loop does not return when the body makes no progress
  (\<open>nonzero_window_size = 0\<close> at a set bit).
\<close>

partial_function (option) clnw_loop :: "nat \<Rightarrow> nat \<Rightarrow> clnw_state \<Rightarrow> clnw_state option" where
  "clnw_loop e nonzero_window_size s =
     (if position s < bit_length e then
        Option.bind (clnw_body e nonzero_window_size s) (clnw_loop e nonzero_window_size)
      else Some s)"

declare clnw_loop.simps [code]

definition clnw_init :: clnw_state where
  "clnw_init = \<lparr>window_partitions = [], max_length = 0, position = 0, cur_length = 0\<rparr>"

text \<open>
  \<^verbatim>\<open>if nonzero_window_size > exp.bit_length():
      raise Exception("nonzero_window_size is bigger than exp")
  window_partitions = []; max_length = 0
  position = 0; length = 0
  <outer loop>
  return [window_partitions, max_length]\<close>
\<close>

definition partition_window_clnw :: "nat \<Rightarrow> nat \<Rightarrow> (error + partition) option" where
  "partition_window_clnw e nonzero_window_size =
     (if nonzero_window_size > bit_length e then Some (Inl InvalidParameter)
      else
        (case clnw_loop e nonzero_window_size clnw_init of
           None \<Rightarrow> None
         | Some s \<Rightarrow> Some (Inr (window_partitions s, max_length s))))"

subsection \<open>pow_window\<close>

text \<open>
  \<^verbatim>\<open>precomputed_powers_of_x = [
      x**i % mod for i in range(0, 2**max_window_partition_length, 1) ]\<close>
  The range is never empty, so a zero modulus raises at \<open>i = 0\<close>.
\<close>

definition precompute_powers :: "int \<Rightarrow> int \<Rightarrow> nat \<Rightarrow> error + int list" where
  "precompute_powers x m max_window_partition_length =
     (if m = 0 then Inl ZeroDivisionError
      else Inr (map (\<lambda>i. x ^ i mod m) [0..<2 ^ max_window_partition_length]))"

text \<open>
  \<^verbatim>\<open>for j in range(0, window_partitions[i]["length"]):
      y = (y * y) % mod\<close>
\<close>

fun square_loop :: "nat \<Rightarrow> int \<Rightarrow> int \<Rightarrow> error + int" where
  "square_loop 0 m y = Inr y"
| "square_loop (Suc n) m y =
     (case py_mod (y * y) m of Inl err \<Rightarrow> Inl err | Inr y' \<Rightarrow> square_loop n m y')"

text \<open>
  \<^verbatim>\<open>for i in reversed(range(0, len(window_partitions) - 1)):
      <squarings>
      if window_partitions[i]["value"] != 0:
          y = (y * precomputed_powers_of_x[window_partitions[i]["value"]]) % mod\<close>
  \<open>window_loop\<close> takes the windows still to be replayed in the order of the loop,
  most significant first.
\<close>

fun window_loop :: "window list \<Rightarrow> int list \<Rightarrow> int \<Rightarrow> int \<Rightarrow> error + int" where
  "window_loop [] powers m y = Inr y"
| "window_loop (w # ws) powers m y =
     (case square_loop (w_length w) m y of
        Inl err \<Rightarrow> Inl err
      | Inr y' \<Rightarrow>
          (if w_value w \<noteq> 0 then
             (case py_index powers (w_value w) of
                Inl err \<Rightarrow> Inl err
              | Inr p \<Rightarrow>
                  (case py_mod (y' * p) m of
                     Inl err \<Rightarrow> Inl err
                   | Inr y'' \<Rightarrow> window_loop ws powers m y''))
           else window_loop ws powers m y'))"

text \<open>
  The driver after the partitioner has returned. The first lookup is
  \<^verbatim>\<open>precomputed_powers_of_x[window_partitions[len(window_partitions) - 1]["value"]]\<close>;
  on an empty list the index \<open>-1\<close> raises \<open>IndexError\<close>.
\<close>

definition replay :: "int \<Rightarrow> int \<Rightarrow> partition \<Rightarrow> error + int" where
  "replay x m p =
     (case p of (partitions, max_partition_length) \<Rightarrow>
        (case precompute_powers x m max_partition_length of
           Inl err \<Rightarrow> Inl err
         | Inr powers \<Rightarrow>
             (if partitions = [] then Inl IndexError
              else
                (case py_index powers (w_value (last partitions)) of
                   Inl err \<Rightarrow> Inl err
                 | Inr y \<Rightarrow> window_loop (rev (butlast partitions)) powers m y))))"

text \<open>
  \<open>pow_window\<close> is given the partitioner as a callable, which may raise or not return.
\<close>

definition pow_window ::
  "int \<Rightarrow> nat \<Rightarrow> int \<Rightarrow> (nat \<Rightarrow> 'a \<Rightarrow> (error + partition) option) \<Rightarrow> 'a \<Rightarrow> (error + int) option" where
  "pow_window x e m partition_window args =
     (case partition_window e args of
        None \<Rightarrow> None
      | Some (Inl err) \<Rightarrow> Some (Inl err)
      | Some (Inr p) \<Rightarrow> Some (replay x m p))"

definition pow_window_same_width :: "int \<Rightarrow> nat \<Rightarrow> int \<Rightarrow> nat \<Rightarrow> (error + int) option" where
  "pow_window_same_width x e m window_size =
     pow_window x e m (\<lambda>e a. Some (partition_window_same_width e a)) window_size"

definition pow_window_clnw :: "int \<Rightarrow> nat \<Rightarrow> int \<Rightarrow> nat \<Rightarrow> (error + int) option" where
  "pow_window_clnw x e m nonzero_window_size =
     pow_window x e m partition_window_clnw nonzero_window_size"

subsection \<open>Recombining a window sequence\<close>

text \<open>
  The exponent that a window sequence stands for (spec, sections 3 and 8): each
  window's value is shifted left by the total length of the windows that precede it in
  the sequence, and the shifted values are OR-ed, or summed. \<open>offset\<close> is the total length
  of the windows already passed.
\<close>

fun recombine_or :: "nat \<Rightarrow> window list \<Rightarrow> nat" where
  "recombine_or offset [] = 0"
| "recombine_or offset (w # ws) =
     push_bit offset (w_value w) OR recombine_or (offset + w_length w) ws"

fun recombine_sum :: "nat \<Rightarrow> window list \<Rightarrow> nat" where
  "recombine_sum offset [] = 0"
| "recombine_sum offset (w # ws) =
     push_bit offset (w_value w) + recombine_sum (offset + w_length w) ws"

subsection \<open>The exponent reached by the replay\<close>

text \<open>
  The invariant of the driver (spec, section 4.4): the accumulator is \<open>x\<close> to the power
  of the bits replayed so far. Replaying a window of length \<open>l\<close> and value \<open>v\<close>
  takes the power \<open>a\<close> to \<open>a * 2 ^ l + v\<close>. The windows are given in the order of the
  replay, most significant first.
\<close>

fun replay_exponent :: "nat \<Rightarrow> window list \<Rightarrow> nat" where
  "replay_exponent a [] = a"
| "replay_exponent a (w # ws) = replay_exponent (a * 2 ^ w_length w + w_value w) ws"

subsection \<open>The invariant of the CLNW scan\<close>

text \<open>
  What holds of the local variables whenever the outer loop of
  \<open>partition_window_clnw\<close> tests its condition: the windows found so far cover exactly
  the bits below \<open>position\<close> and recombine to them; a window is either a zero window
  of positive length or a window of \<open>nonzero_window_size\<close> bits whose lowest bit is set;
  a zero window is never followed by another one, and the scan stands on a set bit
  after a zero window; no window is longer than \<open>max_length\<close>.
\<close>

definition clnw_inv :: "nat \<Rightarrow> nat \<Rightarrow> clnw_state \<Rightarrow> bool" where
  "clnw_inv e d s \<longleftrightarrow>
     cur_length s = 0 \<and>
     position s < bit_length e + d \<and>
     sum_list (map w_length (window_partitions s)) = position s \<and>
     recombine_or 0 (window_partitions s) = take_bit (position s) e \<and>
     (\<forall>w \<in> set (window_partitions s).
        (w_value w = 0 \<and> 0 < w_length w) \<or>
        (odd (w_value w) \<and> w_value w < 2 ^ d \<and> w_length w = d)) \<and>
     (\<forall>w \<in> set (window_partitions s). w_length w \<le> max_length s) \<and>
     (\<forall>i. Suc i < length (window_partitions s) \<longrightarrow>
        \<not> (w_value (window_partitions s ! i) = 0 \<and>
           w_value (window_partitions s ! Suc i) = 0)) \<and>
     (window_partitions s \<noteq> [] \<and> w_value (last (window_partitions s)) = 0 \<longrightarrow>
        bit e (position s))"

subsection \<open>Facts about bit lengths and masks\<close>

lemma bit_length_0 [simp]: "bit_length 0 = 0"
  by (simp add: bit_length.simps)

lemma bit_length_eq_0_iff [simp]: "bit_length n = 0 \<longleftrightarrow> n = 0"
  by (subst bit_length.simps) simp

lemma bit_length_pos: "0 < n \<Longrightarrow> bit_length n = Suc (bit_length (n div 2))"
  by (subst bit_length.simps) simp

lemma less_exp_bit_length: "n < 2 ^ bit_length n"
proof (induction n rule: bit_length.induct)
  case (1 n)
  show ?case
  proof (cases "n = 0")
    case True
    then show ?thesis by simp
  next
    case False
    with 1 have "n div 2 < 2 ^ bit_length (n div 2)" by simp
    then have "n < 2 * 2 ^ bit_length (n div 2)" by linarith
    with False show ?thesis by (simp add: bit_length_pos)
  qed
qed

lemma exp_bit_length_le: "0 < n \<Longrightarrow> 2 ^ (bit_length n - 1) \<le> n"
proof (induction n rule: bit_length.induct)
  case (1 n)
  show ?case
  proof (cases "n div 2 = 0")
    case True
    with 1(2) show ?thesis by (simp add: bit_length_pos)
  next
    case False
    with 1 have "2 ^ (bit_length (n div 2) - 1) \<le> n div 2" by simp
    then have "2 * 2 ^ (bit_length (n div 2) - 1) \<le> n" by linarith
    moreover from False have "bit_length (n div 2) \<noteq> 0"
      by (simp del: div_eq_0_iff)
    then have "bit_length (n div 2) = Suc (bit_length (n div 2) - 1)"
      by arith
    then have "(2::nat) ^ bit_length (n div 2) = 2 * 2 ^ (bit_length (n div 2) - 1)"
      by (metis power_Suc)
    ultimately show ?thesis using 1(2)
      by (simp add: bit_length_pos)
  qed
qed

lemma take_bit_bit_length: "bit_length n \<le> p \<Longrightarrow> take_bit p n = n"
proof -
  assume "bit_length n \<le> p"
  then have "(2::nat) ^ bit_length n \<le> 2 ^ p" by (simp add: power_increasing)
  with less_exp_bit_length [of n] have "n < 2 ^ p" by linarith
  then show ?thesis by (simp add: take_bit_nat_eq_self)
qed

lemma bit_top: "0 < n \<Longrightarrow> bit n (bit_length n - 1)"
proof (rule ccontr)
  assume pos: "0 < n" and nb: "\<not> bit n (bit_length n - 1)"
  have "take_bit (Suc (bit_length n - 1)) n = n"
    using pos by (intro take_bit_bit_length) simp
  with nb have "take_bit (bit_length n - 1) n = n"
    by (simp add: take_bit_Suc_from_most)
  then have "n < 2 ^ (bit_length n - 1)"
    by (metis take_bit_nat_less_exp)
  with exp_bit_length_le [OF pos] show False by simp
qed

subsection \<open>The baseline algorithms\<close>

lemma py_mod_Inr [simp]: "m \<noteq> 0 \<Longrightarrow> py_mod a m = Inr (a mod m)"
  by (simp add: py_mod_def)

lemma naive_loop_eq:
  "m \<noteq> 0 \<Longrightarrow> naive_loop n x m y = Inr (if n = 0 then y else (y * x ^ n) mod m)"
proof (induction n arbitrary: y)
  case 0
  then show ?case by simp
next
  case (Suc n)
  have "((y * x) mod m * x ^ n) mod m = (y * x * x ^ n) mod m"
    by (simp add: mod_mult_left_eq)
  with Suc show ?case by (simp add: mult.assoc)
qed

lemma sq_power_mod: "((x * x) mod m) ^ k mod m = (x ^ (2 * k)) mod (m::int)"
  by (simp add: power_mod power_mult power2_eq_square)

lemma binary_step_odd:
  "((y * x) mod m * ((x * x) mod m) ^ k) mod m = (y * x ^ Suc (2 * k)) mod (m::int)"
proof -
  have "((y * x) mod m * ((x * x) mod m) ^ k) mod m
      = ((y * x) mod m * (((x * x) mod m) ^ k mod m)) mod m"
    by (simp add: mod_mult_right_eq)
  also have "\<dots> = ((y * x) mod m * (x ^ (2 * k) mod m)) mod m"
    by (simp only: sq_power_mod)
  also have "\<dots> = (y * x * x ^ (2 * k)) mod m"
    by (simp add: mod_mult_eq)
  also have "\<dots> = (y * x ^ Suc (2 * k)) mod m"
    by (simp add: mult.assoc)
  finally show ?thesis .
qed

lemma binary_step_even:
  "(y * ((x * x) mod m) ^ k) mod m = (y * x ^ (2 * k)) mod (m::int)"
proof -
  have "(y * ((x * x) mod m) ^ k) mod m = (y * (((x * x) mod m) ^ k mod m)) mod m"
    by (simp add: mod_mult_right_eq)
  also have "\<dots> = (y * (x ^ (2 * k) mod m)) mod m"
    by (simp only: sq_power_mod)
  also have "\<dots> = (y * x ^ (2 * k)) mod m"
    by (simp add: mod_mult_right_eq)
  finally show ?thesis .
qed

lemma binary_loop_eq:
  "m \<noteq> 0 \<Longrightarrow> binary_loop x e m y = Inr (if e = 0 then y else (y * x ^ e) mod m)"
proof (induction x e m y rule: binary_loop.induct)
  case (1 x e m y)
  show ?case
  proof (cases "e = 0")
    case True
    then show ?thesis by (subst binary_loop.simps) simp
  next
    case pos: False
    show ?thesis
    proof (cases "e mod 2 = 0")
      case True
      define k where "k = drop_bit 1 e"
      from True have e: "e = 2 * k"
        unfolding k_def drop_bit_eq_div power_one_right by presburger
      with pos have k: "k \<noteq> 0" by simp
      have "binary_loop x e m y = binary_loop ((x * x) mod m) k m y"
        using pos True 1(3) unfolding k_def by (subst binary_loop.simps) simp
      also have "\<dots> = Inr ((y * ((x * x) mod m) ^ k) mod m)"
        using "1.IH"(2) [OF pos _ _ 1(3), of "(x * x) mod m"] True 1(3) k
        unfolding k_def by simp
      also have "\<dots> = Inr ((y * x ^ e) mod m)"
        unfolding e by (simp only: binary_step_even)
      finally show ?thesis using pos by simp
    next
      case False
      define k where "k = drop_bit 1 (e - 1)"
      from False have e: "e = Suc (2 * k)"
        unfolding k_def drop_bit_eq_div power_one_right by presburger
      have "binary_loop x e m y = binary_loop ((x * x) mod m) k m ((y * x) mod m)"
        using pos False 1(3) unfolding k_def by (subst binary_loop.simps) simp
      also have "\<dots> = Inr (if k = 0 then (y * x) mod m
          else ((y * x) mod m * ((x * x) mod m) ^ k) mod m)"
        using "1.IH"(1) [OF pos _ _ _ 1(3), of "(y * x) mod m" "(x * x) mod m"] False 1(3)
        unfolding k_def by simp
      also have "\<dots> = Inr (((y * x) mod m * ((x * x) mod m) ^ k) mod m)"
        by simp
      also have "\<dots> = Inr ((y * x ^ e) mod m)"
        unfolding e by (simp only: binary_step_odd)
      finally show ?thesis using pos by simp
    qed
  qed
qed

subsection \<open>The two scans and one iteration of the CLNW loop\<close>

lemma exp_minus_Suc_0: "(2::nat) ^ l - Suc 0 = mask l"
  by (simp add: mask_eq_exp_minus_1)

lemma zw_scan_stops:
  "pos < bit_length e \<Longrightarrow>
   \<exists>q. zw_scan e pos len = Some (q, len + (q - pos)) \<and> pos \<le> q \<and> q < bit_length e \<and>
       bit e q \<and> (\<forall>i. pos \<le> i \<and> i < q \<longrightarrow> \<not> bit e i)"
proof (induction "bit_length e - pos" arbitrary: pos len rule: less_induct)
  case less
  show ?case
  proof (cases "bit e pos")
    case True
    then have "zw_scan e pos len = Some (pos, len)"
      by (subst zw_scan.simps) (simp add: and_exp_eq_0_iff_not_bit)
    with True less.prems show ?thesis by auto
  next
    case False
    have "pos \<noteq> bit_length e - 1"
      using False bit_top [of e] less.prems by (cases "e = 0") auto
    with less.prems have next_lt: "Suc pos < bit_length e" by simp
    then have "bit_length e - Suc pos < bit_length e - pos" by simp
    from less.hyps [OF this next_lt, of "Suc len"]
    obtain q where q: "zw_scan e (Suc pos) (Suc len) = Some (q, Suc len + (q - Suc pos))"
      "Suc pos \<le> q" "q < bit_length e" "bit e q" "\<forall>i. Suc pos \<le> i \<and> i < q \<longrightarrow> \<not> bit e i"
      by blast
    have "zw_scan e pos len = zw_scan e (Suc pos) (Suc len)"
      using False by (subst zw_scan.simps) (simp add: and_exp_eq_0_iff_not_bit)
    moreover have "Suc len + (q - Suc pos) = len + (q - pos)"
      using q(2) by simp
    moreover have "\<forall>i. pos \<le> i \<and> i < q \<longrightarrow> \<not> bit e i"
      using q(5) False by (metis Suc_leI le_neq_implies_less)
    ultimately show ?thesis using q by (intro exI [of _ q]) simp
  qed
qed

lemma nw_scan_eq: "nw_scan d pos len = (pos + (d - len), max len d)"
proof (induction d pos len rule: nw_scan.induct)
  case (1 d pos len)
  show ?case
  proof (cases "len < d")
    case True
    with 1 show ?thesis by (subst nw_scan.simps) (simp add: max_def)
  next
    case False
    then show ?thesis by (subst nw_scan.simps) (simp add: max_def)
  qed
qed

lemma clnw_body_zero:
  assumes "position s < bit_length e" and "\<not> bit e (position s)" and "cur_length s = 0"
  shows "\<exists>q. position s < q \<and> q < bit_length e \<and> bit e q \<and>
           (\<forall>i. position s \<le> i \<and> i < q \<longrightarrow> \<not> bit e i) \<and>
           clnw_body e d s =
             Some \<lparr>window_partitions =
                     window_partitions s @ [\<lparr>w_value = 0, w_length = q - position s\<rparr>],
                   max_length = max (max_length s) (q - position s),
                   position = q, cur_length = 0\<rparr>"
proof -
  from zw_scan_stops [OF assms(1), of 0]
  obtain q where q: "zw_scan e (position s) 0 = Some (q, q - position s)"
    "position s \<le> q" "q < bit_length e" "bit e q"
    "\<forall>i. position s \<le> i \<and> i < q \<longrightarrow> \<not> bit e i"
    by auto
  from q(2,4) assms(2) have "position s < q"
    by (metis le_neq_implies_less)
  moreover have "clnw_body e d s =
      Some \<lparr>window_partitions =
              window_partitions s @ [\<lparr>w_value = 0, w_length = q - position s\<rparr>],
            max_length = max (max_length s) (q - position s),
            position = q, cur_length = 0\<rparr>"
    using assms(2,3) q(1) by (simp add: clnw_body_def and_exp_eq_0_iff_not_bit)
  ultimately show ?thesis using q by blast
qed

lemma clnw_body_nonzero:
  assumes "bit e (position s)" and "cur_length s = 0"
  shows "clnw_body e d s =
           Some \<lparr>window_partitions =
                   window_partitions s @
                     [\<lparr>w_value = take_bit d (drop_bit (position s) e), w_length = d\<rparr>],
                 max_length = max (max_length s) d,
                 position = position s + d, cur_length = 0\<rparr>"
  using assms
  by (simp add: clnw_body_def and_exp_eq_0_iff_not_bit nw_scan_eq exp_minus_Suc_0
      take_bit_eq_mask)

lemma clnw_loop_rule:
  assumes "I s"
    and step: "\<And>s. I s \<Longrightarrow> position s < bit_length e \<Longrightarrow>
      \<exists>s'. clnw_body e d s = Some s' \<and> I s' \<and> position s < position s'"
  shows "\<exists>s'. clnw_loop e d s = Some s' \<and> I s' \<and> bit_length e \<le> position s'"
  using assms(1)
proof (induction "bit_length e - position s" arbitrary: s rule: less_induct)
  case less
  show ?case
  proof (cases "position s < bit_length e")
    case False
    then have "clnw_loop e d s = Some s"
      by (subst clnw_loop.simps) simp
    with False less.prems show ?thesis by simp
  next
    case True
    from step [OF less.prems True] obtain s1
      where s1: "clnw_body e d s = Some s1" "I s1" "position s < position s1"
      by blast
    from True s1(3) have "bit_length e - position s1 < bit_length e - position s"
      by simp
    from less.hyps [OF this s1(2)] obtain s'
      where "clnw_loop e d s1 = Some s'" "I s'" "bit_length e \<le> position s'"
      by blast
    moreover have "clnw_loop e d s = clnw_loop e d s1"
      using True s1(1) by (subst clnw_loop.simps) simp
    ultimately show ?thesis by simp
  qed
qed

subsection \<open>Recombination\<close>

lemma recombine_or_append:
  "recombine_or offset (ws @ [w]) =
     recombine_or offset ws OR push_bit (offset + sum_list (map w_length ws)) (w_value w)"
  by (induction ws arbitrary: offset) (simp_all add: ac_simps)

lemma recombine_sum_append:
  "recombine_sum offset (ws @ [w]) =
     recombine_sum offset ws + push_bit (offset + sum_list (map w_length ws)) (w_value w)"
  by (induction ws arbitrary: offset) (simp_all add: ac_simps)

lemma take_bit_extend:
  "take_bit p (e::nat) OR push_bit p (take_bit l (drop_bit p e)) = take_bit (p + l) e"
  by (rule bit_eqI) (auto simp: bit_or_iff bit_take_bit_iff bit_push_bit_iff bit_drop_bit_eq)

lemma take_bit_extend_zeros:
  assumes "\<forall>i. p \<le> i \<and> i < q \<longrightarrow> \<not> bit (e::nat) i" and "p \<le> q"
  shows "take_bit q e = take_bit p e"
proof (rule bit_eqI)
  fix n
  show "bit (take_bit q e) n \<longleftrightarrow> bit (take_bit p e) n"
    using assms by (auto simp: bit_take_bit_iff) (metis not_le_imp_less)
qed

subsection \<open>The invariant holds throughout the CLNW scan\<close>

lemma clnw_inv_init: "1 \<le> d \<Longrightarrow> clnw_inv e d clnw_init"
  by (simp add: clnw_inv_def clnw_init_def)

lemma odd_nonzero_window:
  assumes "bit (e::nat) p" and "1 \<le> d"
  shows "odd (take_bit d (drop_bit p e))"
proof -
  have "bit (take_bit d (drop_bit p e)) 0"
    using assms by (simp add: bit_take_bit_iff bit_drop_bit_eq)
  then show ?thesis by (simp add: bit_0)
qed

lemma no_adjacent_zero_append:
  assumes "\<forall>i. Suc i < length ws \<longrightarrow> \<not> (w_value (ws ! i) = 0 \<and> w_value (ws ! Suc i) = 0)"
    and "ws \<noteq> [] \<and> w_value (last ws) = 0 \<longrightarrow> w_value w \<noteq> 0"
  shows "\<forall>i. Suc i < length (ws @ [w]) \<longrightarrow>
           \<not> (w_value ((ws @ [w]) ! i) = 0 \<and> w_value ((ws @ [w]) ! Suc i) = 0)"
proof (intro allI impI)
  fix i
  assume i: "Suc i < length (ws @ [w])"
  show "\<not> (w_value ((ws @ [w]) ! i) = 0 \<and> w_value ((ws @ [w]) ! Suc i) = 0)"
  proof (cases "Suc i < length ws")
    case True
    with assms(1) show ?thesis by (simp add: nth_append)
  next
    case False
    with i have eq: "Suc i = length ws" by simp
    then have ne: "ws \<noteq> []" by auto
    from eq have "i = length ws - 1" by simp
    with ne eq have "(ws @ [w]) ! i = last ws" and "(ws @ [w]) ! Suc i = w"
      by (simp_all add: nth_append last_conv_nth)
    note this ne
    with assms(2) show ?thesis by auto
  qed
qed

lemma clnw_inv_zero_step:
  assumes inv: "clnw_inv e d s" and lt: "position s < bit_length e"
    and nb: "\<not> bit e (position s)"
  shows "\<exists>s'. clnw_body e d s = Some s' \<and> clnw_inv e d s' \<and> position s < position s'"
proof -
  from inv have len0: "cur_length s = 0" by (simp add: clnw_inv_def)
  from clnw_body_zero [OF lt nb len0, of d] obtain q where
    q: "position s < q" "q < bit_length e" "bit e q"
       "\<forall>i. position s \<le> i \<and> i < q \<longrightarrow> \<not> bit e i"
    and body: "clnw_body e d s =
       Some \<lparr>window_partitions =
               window_partitions s @ [\<lparr>w_value = 0, w_length = q - position s\<rparr>],
             max_length = max (max_length s) (q - position s),
             position = q, cur_length = 0\<rparr>"
    by blast
  let ?w = "\<lparr>w_value = 0, w_length = q - position s\<rparr>"
  let ?s = "\<lparr>window_partitions = window_partitions s @ [?w],
             max_length = max (max_length s) (q - position s),
             position = q, cur_length = 0\<rparr>"
  have c2: "position ?s < bit_length e + d" using q(2) by simp
  have c3: "sum_list (map w_length (window_partitions ?s)) = position ?s"
    using inv q(1) by (simp add: clnw_inv_def)
  have "take_bit q e = take_bit (position s) e"
    using q(1,4) by (intro take_bit_extend_zeros) auto
  then have c4: "recombine_or 0 (window_partitions ?s) = take_bit (position ?s) e"
    using inv by (simp add: clnw_inv_def recombine_or_append)
  have c5: "\<forall>w \<in> set (window_partitions ?s).
      (w_value w = 0 \<and> 0 < w_length w) \<or>
      (odd (w_value w) \<and> w_value w < 2 ^ d \<and> w_length w = d)"
    using inv q(1) by (simp add: clnw_inv_def)
  have c6: "\<forall>w \<in> set (window_partitions ?s). w_length w \<le> max_length ?s"
    using inv by (auto simp: clnw_inv_def)
  have "window_partitions s \<noteq> [] \<and> w_value (last (window_partitions s)) = 0 \<longrightarrow> False"
    using inv nb by (simp add: clnw_inv_def)
  then have c7: "\<forall>i. Suc i < length (window_partitions ?s) \<longrightarrow>
      \<not> (w_value (window_partitions ?s ! i) = 0 \<and> w_value (window_partitions ?s ! Suc i) = 0)"
    using inv no_adjacent_zero_append [of "window_partitions s" ?w]
    by (simp add: clnw_inv_def)
  have c8: "window_partitions ?s \<noteq> [] \<and> w_value (last (window_partitions ?s)) = 0 \<longrightarrow>
      bit e (position ?s)"
    using q(3) by simp
  have "clnw_inv e d ?s"
    unfolding clnw_inv_def using c2 c3 c4 c5 c6 c7 c8 by simp
  with body q(1) show ?thesis by simp
qed

lemma clnw_inv_nonzero_step:
  assumes inv: "clnw_inv e d s" and lt: "position s < bit_length e"
    and b: "bit e (position s)" and d: "1 \<le> d"
  shows "\<exists>s'. clnw_body e d s = Some s' \<and> clnw_inv e d s' \<and> position s < position s'"
proof -
  from inv have len0: "cur_length s = 0" by (simp add: clnw_inv_def)
  let ?v = "take_bit d (drop_bit (position s) e)"
  let ?w = "\<lparr>w_value = ?v, w_length = d\<rparr>"
  let ?s = "\<lparr>window_partitions = window_partitions s @ [?w],
             max_length = max (max_length s) d,
             position = position s + d, cur_length = 0\<rparr>"
  have body: "clnw_body e d s = Some ?s"
    by (rule clnw_body_nonzero [OF b len0])
  have odd: "odd ?v" by (rule odd_nonzero_window [OF b d])
  then have nz: "?v \<noteq> 0" by (metis even_zero)
  have c2: "position ?s < bit_length e + d" using lt by simp
  have c3: "sum_list (map w_length (window_partitions ?s)) = position ?s"
    using inv by (simp add: clnw_inv_def)
  have c4: "recombine_or 0 (window_partitions ?s) = take_bit (position ?s) e"
    using inv by (simp add: clnw_inv_def recombine_or_append take_bit_extend)
  have c5: "\<forall>w \<in> set (window_partitions ?s).
      (w_value w = 0 \<and> 0 < w_length w) \<or>
      (odd (w_value w) \<and> w_value w < 2 ^ d \<and> w_length w = d)"
    using inv odd by (simp add: clnw_inv_def)
  have c6: "\<forall>w \<in> set (window_partitions ?s). w_length w \<le> max_length ?s"
    using inv by (auto simp: clnw_inv_def)
  have c7: "\<forall>i. Suc i < length (window_partitions ?s) \<longrightarrow>
      \<not> (w_value (window_partitions ?s ! i) = 0 \<and> w_value (window_partitions ?s ! Suc i) = 0)"
    using inv nz no_adjacent_zero_append [of "window_partitions s" ?w]
    by (simp add: clnw_inv_def)
  have c8: "window_partitions ?s \<noteq> [] \<and> w_value (last (window_partitions ?s)) = 0 \<longrightarrow>
      bit e (position ?s)"
    using nz by simp
  have "clnw_inv e d ?s"
    unfolding clnw_inv_def using c2 c3 c4 c5 c6 c7 c8 by simp
  with body d show ?thesis by simp
qed

lemma clnw_loop_inv:
  assumes "1 \<le> d"
  shows "\<exists>s. clnw_loop e d clnw_init = Some s \<and> clnw_inv e d s \<and> bit_length e \<le> position s"
proof (rule clnw_loop_rule [where I = "clnw_inv e d"])
  show "clnw_inv e d clnw_init" by (rule clnw_inv_init [OF assms])
next
  fix s
  assume "clnw_inv e d s" and "position s < bit_length e"
  then show "\<exists>s'. clnw_body e d s = Some s' \<and> clnw_inv e d s' \<and> position s < position s'"
    using assms by (cases "bit e (position s)")
      (blast intro: clnw_inv_nonzero_step clnw_inv_zero_step)+
qed

subsection \<open>OR-ing and summing the shifted windows agree\<close>

lemma recombine_or_shift: "recombine_or offset ws = push_bit offset (recombine_or 0 ws)"
proof (induction ws arbitrary: offset)
  case Nil
  then show ?case by simp
next
  case (Cons w ws)
  have "recombine_or offset (w # ws) =
      push_bit offset (w_value w) OR push_bit (offset + w_length w) (recombine_or 0 ws)"
    using Cons [of "offset + w_length w"] by simp
  also have "\<dots> = push_bit offset (w_value w OR push_bit (w_length w) (recombine_or 0 ws))"
    by (simp add: push_bit_add add.commute)
  also have "\<dots> = push_bit offset (recombine_or 0 (w # ws))"
    using Cons [of "w_length w"] by simp
  finally show ?case .
qed

lemma recombine_sum_shift: "recombine_sum offset ws = push_bit offset (recombine_sum 0 ws)"
proof (induction ws arbitrary: offset)
  case Nil
  then show ?case by simp
next
  case (Cons w ws)
  have "recombine_sum offset (w # ws) =
      push_bit offset (w_value w) + push_bit (offset + w_length w) (recombine_sum 0 ws)"
    using Cons [of "offset + w_length w"] by simp
  also have "\<dots> = push_bit offset (w_value w + push_bit (w_length w) (recombine_sum 0 ws))"
    by (simp add: push_bit_add add.commute)
  also have "\<dots> = push_bit offset (recombine_sum 0 (w # ws))"
    using Cons [of "w_length w"] by simp
  finally show ?case .
qed

lemma add_push_bit_eq_or:
  assumes "(v::nat) < 2 ^ l"
  shows "v + push_bit l r = v OR push_bit l r"
proof (rule disjunctive_add)
  fix n
  from assms have "take_bit l v = v" by (simp add: take_bit_nat_eq_self)
  then have "bit v n \<Longrightarrow> n < l" by (metis bit_take_bit_iff)
  then show "\<not> bit v n \<or> \<not> bit (push_bit l r) n"
    by (auto simp: bit_push_bit_iff)
qed

lemma recombine_sum_eq_or:
  "\<forall>w \<in> set ws. w_value w < 2 ^ w_length w \<Longrightarrow>
   recombine_sum offset ws = recombine_or offset ws"
proof (induction ws arbitrary: offset)
  case Nil
  then show ?case by simp
next
  case (Cons w ws)
  then have IH: "recombine_sum 0 ws = recombine_or 0 ws" by simp
  have "recombine_sum 0 (w # ws) = w_value w + push_bit (w_length w) (recombine_sum 0 ws)"
    using recombine_sum_shift [of "w_length w" ws] by simp
  also have "\<dots> = w_value w OR push_bit (w_length w) (recombine_or 0 ws)"
    using Cons.prems IH by (simp add: add_push_bit_eq_or)
  also have "\<dots> = recombine_or 0 (w # ws)"
    using recombine_or_shift [of "w_length w" ws] by simp
  finally have "recombine_sum 0 (w # ws) = recombine_or 0 (w # ws)" .
  then show ?case
    using recombine_sum_shift [of offset "w # ws"] recombine_or_shift [of offset "w # ws"]
    by simp
qed

subsection \<open>The fixed-width partition\<close>

lemma ceiling_quotient_bounds:
  fixes a b :: nat
  assumes "0 < b"
  shows "a \<le> nat \<lceil>real a / real b\<rceil> * b"
    and "nat \<lceil>real a / real b\<rceil> * b < a + b"
proof -
  let ?x = "real a / real b"
  define n where "n = nat \<lceil>?x\<rceil>"
  have "0 \<le> ?x" by simp
  then have "- 1 < ?x" by linarith
  then have nonneg: "0 \<le> \<lceil>?x\<rceil>" by simp
  then have n: "real n = of_int \<lceil>?x\<rceil>" by (simp add: n_def)
  have "?x \<le> real n" unfolding n by (rule le_of_int_ceiling)
  then have "real a \<le> real n * real b"
    using assms by (simp add: field_simps)
  then have "real a \<le> real (n * b)" by simp
  then show "a \<le> nat \<lceil>?x\<rceil> * b" unfolding n_def by (simp only: of_nat_le_iff)
  have "real_of_int \<lceil>?x\<rceil> - 1 < ?x" using ceiling_correct [of ?x] by simp
  then have "real n < ?x + 1" unfolding n by simp
  then have "real n * real b < real a + real b"
    using assms by (simp add: field_simps)
  then have "real (n * b) < real (a + b)" by simp
  then show "nat \<lceil>?x\<rceil> * b < a + b" unfolding n_def by (simp only: of_nat_less_iff)
qed

subsection \<open>The partitioners on valid parameters\<close>

lemma same_width_window_value [simp]:
  "w_value (same_width_window e w i) = take_bit w (drop_bit (i * w) e)"
  by (simp add: same_width_window_def exp_minus_Suc_0 take_bit_eq_mask and.commute)

lemma same_width_window_length [simp]: "w_length (same_width_window e w i) = w"
  by (simp add: same_width_window_def)

lemma same_width_total_length:
  "sum_list (map w_length (map (same_width_window e w) [0..<n])) = n * w"
  by (induction n) simp_all

lemma same_width_recombine:
  "recombine_or 0 (map (same_width_window e w) [0..<n]) = take_bit (n * w) e"
proof (induction n)
  case 0
  then show ?case by simp
next
  case (Suc n)
  have "recombine_or 0 (map (same_width_window e w) [0..<Suc n]) =
      take_bit (n * w) e OR push_bit (n * w) (take_bit w (drop_bit (n * w) e))"
    using Suc by (simp add: recombine_or_append same_width_total_length del: map_map)
  also have "\<dots> = take_bit (Suc n * w) e"
    by (simp add: take_bit_extend add.commute)
  finally show ?case .
qed

lemma same_width_values_bounded:
  "\<forall>v \<in> set (map (same_width_window e w) [0..<n]). w_value v < 2 ^ w_length v"
  by simp

lemma partition_window_same_width_valid:
  assumes "1 \<le> w" and "w < bit_length e"
  shows "partition_window_same_width e w =
    Inr (map (same_width_window e w) [0..<nat \<lceil>real (bit_length e) / real w\<rceil>], w)"
  using assms by (simp add: partition_window_same_width_def)

lemma same_width_covers:
  assumes "1 \<le> w"
  shows "take_bit (nat \<lceil>real (bit_length e) / real w\<rceil> * w) e = e"
  using assms ceiling_quotient_bounds(1) [of w "bit_length e"]
  by (intro take_bit_bit_length) simp

lemma partition_window_clnw_valid:
  assumes "1 \<le> d" and "d \<le> bit_length e"
  shows "\<exists>s. partition_window_clnw e d = Some (Inr (window_partitions s, max_length s)) \<and>
           clnw_inv e d s \<and> bit_length e \<le> position s"
proof -
  from clnw_loop_inv [OF assms(1), of e] obtain s
    where "clnw_loop e d clnw_init = Some s" "clnw_inv e d s" "bit_length e \<le> position s"
    by blast
  with assms(2) show ?thesis
    by (intro exI [of _ s]) (simp add: partition_window_clnw_def)
qed

subsection \<open>The replay computes the power of the recombined exponent\<close>

lemma square_loop_eq:
  "m \<noteq> 0 \<Longrightarrow> square_loop n m (x ^ a mod m) = Inr (x ^ (a * 2 ^ n) mod m)"
proof (induction n arbitrary: a)
  case 0
  then show ?case by simp
next
  case (Suc n)
  have "(x ^ a mod m) * (x ^ a mod m) mod m = x ^ (a * 2) mod m"
    by (simp add: mod_mult_eq power_mult power2_eq_square)
  with Suc show ?case by (simp add: mult.assoc)
qed

lemma window_loop_eq:
  assumes "m \<noteq> 0"
    and "\<forall>i < length powers. powers ! i = x ^ i mod m"
    and "\<forall>w \<in> set ws. w_value w < length powers"
  shows "window_loop ws powers m (x ^ a mod m) = Inr (x ^ replay_exponent a ws mod m)"
  using assms(3)
proof (induction ws arbitrary: a)
  case Nil
  then show ?case by simp
next
  case (Cons w ws)
  let ?b = "a * 2 ^ w_length w"
  have sq: "square_loop (w_length w) m (x ^ a mod m) = Inr (x ^ ?b mod m)"
    by (rule square_loop_eq [OF assms(1)])
  show ?case
  proof (cases "w_value w = 0")
    case True
    with sq Cons show ?thesis by simp
  next
    case False
    from Cons.prems have "w_value w < length powers" by simp
    with assms(2) have idx: "py_index powers (w_value w) = Inr (x ^ w_value w mod m)"
      by (simp add: py_index_def)
    have "(x ^ ?b mod m) * (x ^ w_value w mod m) mod m = x ^ (?b + w_value w) mod m"
      by (simp add: mod_mult_eq power_add)
    with sq idx False Cons assms(1) show ?thesis by simp
  qed
qed

lemma replay_exponent_append:
  "replay_exponent a (ws @ [w]) = replay_exponent a ws * 2 ^ w_length w + w_value w"
  by (induction ws arbitrary: a) simp_all

lemma replay_exponent_rev:
  "replay_exponent a (rev ws) =
     recombine_sum 0 ws + a * 2 ^ sum_list (map w_length ws)"
proof (induction ws)
  case Nil
  then show ?case by simp
next
  case (Cons w ws)
  have "recombine_sum 0 (w # ws) = w_value w + 2 ^ w_length w * recombine_sum 0 ws"
    using recombine_sum_shift [of "w_length w" ws] by (simp add: push_bit_eq_mult)
  with Cons show ?case
    by (simp add: replay_exponent_append algebra_simps power_add)
qed

lemma replay_exponent_recombine:
  assumes "ws \<noteq> []"
  shows "replay_exponent (w_value (last ws)) (rev (butlast ws)) = recombine_sum 0 ws"
proof -
  have "recombine_sum 0 (butlast ws @ [last ws]) =
      recombine_sum 0 (butlast ws) +
        w_value (last ws) * 2 ^ sum_list (map w_length (butlast ws))"
    by (simp add: recombine_sum_append push_bit_eq_mult)
  with assms show ?thesis by (simp add: replay_exponent_rev)
qed

lemma replay_eq:
  assumes "m \<noteq> 0" and "ws \<noteq> []" and "\<forall>w \<in> set ws. w_value w < 2 ^ ml"
  shows "replay x m (ws, ml) = Inr (x ^ recombine_sum 0 ws mod m)"
proof -
  let ?powers = "map (\<lambda>i. x ^ i mod m) [0..<2 ^ ml]"
  have tab: "precompute_powers x m ml = Inr ?powers"
    using assms(1) by (simp add: precompute_powers_def)
  have nth: "\<forall>i < length ?powers. ?powers ! i = x ^ i mod m" by simp
  from assms(2,3) have "w_value (last ws) < 2 ^ ml" by simp
  then have first: "py_index ?powers (w_value (last ws)) = Inr (x ^ w_value (last ws) mod m)"
    by (simp add: py_index_def)
  have "\<forall>w \<in> set (rev (butlast ws)). w_value w < length ?powers"
    using assms(3) by (auto dest: in_set_butlastD)
  from window_loop_eq [OF assms(1) nth this, of "w_value (last ws)"]
  have "window_loop (rev (butlast ws)) ?powers m (x ^ w_value (last ws) mod m) =
      Inr (x ^ recombine_sum 0 ws mod m)"
    by (simp only: replay_exponent_recombine [OF assms(2)])
  with tab first assms(2) show ?thesis by (simp add: replay_def)
qed

subsection \<open>What the partitioners return\<close>

lemma clnw_inv_values_bounded:
  assumes "clnw_inv e d s" and "w \<in> set (window_partitions s)"
  shows "w_value w < 2 ^ w_length w" and "w_value w < 2 ^ max_length s"
proof -
  from assms have shape: "(w_value w = 0 \<and> 0 < w_length w) \<or>
      (odd (w_value w) \<and> w_value w < 2 ^ d \<and> w_length w = d)"
    and le: "w_length w \<le> max_length s"
    by (simp_all add: clnw_inv_def)
  from shape show "w_value w < 2 ^ w_length w" by auto
  moreover have "(2::nat) ^ w_length w \<le> 2 ^ max_length s"
    using le by (simp add: power_increasing)
  ultimately show "w_value w < 2 ^ max_length s" by linarith
qed

lemma clnw_inv_final:
  assumes "clnw_inv e d s" and "bit_length e \<le> position s"
  shows "recombine_or 0 (window_partitions s) = e"
    and "recombine_sum 0 (window_partitions s) = e"
    and "bit_length e \<le> sum_list (map w_length (window_partitions s))"
    and "sum_list (map w_length (window_partitions s)) < bit_length e + d"
proof -
  from assms(1) have "recombine_or 0 (window_partitions s) = take_bit (position s) e"
    by (simp add: clnw_inv_def)
  with assms(2) show or: "recombine_or 0 (window_partitions s) = e"
    by (simp add: take_bit_bit_length)
  have "\<forall>w \<in> set (window_partitions s). w_value w < 2 ^ w_length w"
    using clnw_inv_values_bounded(1) [OF assms(1)] by blast
  with or show "recombine_sum 0 (window_partitions s) = e"
    by (simp add: recombine_sum_eq_or)
  from assms show "bit_length e \<le> sum_list (map w_length (window_partitions s))"
    by (simp add: clnw_inv_def)
  from assms(1) show "sum_list (map w_length (window_partitions s)) < bit_length e + d"
    by (simp add: clnw_inv_def)
qed

lemma clnw_inv_nonempty:
  assumes "clnw_inv e d s" and "bit_length e \<le> position s" and "1 \<le> bit_length e"
  shows "window_partitions s \<noteq> []"
proof
  assume "window_partitions s = []"
  with assms(1) have "position s = 0" by (simp add: clnw_inv_def)
  with assms(2,3) show False by simp
qed

lemma same_width_final:
  fixes e w :: nat
  assumes "1 \<le> w"
  defines "ws \<equiv> map (same_width_window e w) [0..<nat \<lceil>real (bit_length e) / real w\<rceil>]"
  shows "recombine_or 0 ws = e"
    and "recombine_sum 0 ws = e"
    and "bit_length e \<le> sum_list (map w_length ws)"
    and "sum_list (map w_length ws) < bit_length e + w"
    and "sum_list (map w_length ws) = nat \<lceil>real (bit_length e) / real w\<rceil> * w"
proof -
  show or: "recombine_or 0 ws = e"
    unfolding ws_def by (simp only: same_width_recombine same_width_covers [OF assms(1)])
  have "\<forall>v \<in> set ws. w_value v < 2 ^ w_length v"
    unfolding ws_def by (rule same_width_values_bounded)
  with or show "recombine_sum 0 ws = e" by (simp add: recombine_sum_eq_or)
  show total: "sum_list (map w_length ws) = nat \<lceil>real (bit_length e) / real w\<rceil> * w"
    unfolding ws_def by (rule same_width_total_length)
  from assms(1) have "0 < w" by simp
  from ceiling_quotient_bounds [OF this, of "bit_length e"] total
  show "bit_length e \<le> sum_list (map w_length ws)"
    and "sum_list (map w_length ws) < bit_length e + w"
    by simp_all
qed

lemma same_width_nonempty:
  assumes "1 \<le> w" and "w < bit_length e"
  shows "map (same_width_window e w) [0..<nat \<lceil>real (bit_length e) / real w\<rceil>] \<noteq> []"
proof -
  from assms have "0 < w" by simp
  from ceiling_quotient_bounds(1) [OF this, of "bit_length e"] assms
  have "0 < nat \<lceil>real (bit_length e) / real w\<rceil>"
    by (cases "nat \<lceil>real (bit_length e) / real w\<rceil>") simp_all
  then show ?thesis by simp
qed

subsection \<open>The four algorithms compute the modular power\<close>

lemma bit_length_ge_1: "1 \<le> bit_length e \<Longrightarrow> e \<noteq> 0"
  by (cases "e = 0") simp_all

lemma pow_step_by_step_eq:
  "m \<noteq> 0 \<Longrightarrow> e \<noteq> 0 \<Longrightarrow> pow_step_by_step x e m = Inr (x ^ e mod m)"
  by (simp add: pow_step_by_step_def naive_loop_eq)

lemma pow_binary_eq:
  "m \<noteq> 0 \<Longrightarrow> e \<noteq> 0 \<Longrightarrow> pow_binary x e m = Inr (x ^ e mod m)"
  by (simp add: pow_binary_def binary_loop_eq)

lemma replay_zero_modulus: "replay x 0 p = Inl ZeroDivisionError"
  by (cases p) (simp add: replay_def precompute_powers_def)

lemma replay_clnw:
  assumes "clnw_inv e d s" and "bit_length e \<le> position s" and "1 \<le> bit_length e"
  shows "replay x m (window_partitions s, max_length s) =
    (if m = 0 then Inl ZeroDivisionError else Inr (x ^ e mod m))"
proof (cases "m = 0")
  case True
  then show ?thesis by (simp add: replay_zero_modulus)
next
  case False
  have "replay x m (window_partitions s, max_length s) =
      Inr (x ^ recombine_sum 0 (window_partitions s) mod m)"
    using clnw_inv_nonempty [OF assms] clnw_inv_values_bounded(2) [OF assms(1)]
    by (intro replay_eq [OF False]) blast+
  with False show ?thesis by (simp add: clnw_inv_final(2) [OF assms(1,2)])
qed

lemma pow_window_clnw_eq:
  assumes "1 \<le> d" and "d \<le> bit_length e"
  shows "pow_window_clnw x e m d =
    Some (if m = 0 then Inl ZeroDivisionError else Inr (x ^ e mod m))"
proof -
  from partition_window_clnw_valid [OF assms] obtain s
    where part: "partition_window_clnw e d = Some (Inr (window_partitions s, max_length s))"
      and inv: "clnw_inv e d s" and fin: "bit_length e \<le> position s"
    by blast
  from assms have "1 \<le> bit_length e" by simp
  from replay_clnw [OF inv fin this, of x m] part show ?thesis
    by (simp add: pow_window_clnw_def pow_window_def)
qed

lemma pow_window_same_width_eq:
  assumes "1 \<le> w" and "w < bit_length e"
  shows "pow_window_same_width x e m w =
    Some (if m = 0 then Inl ZeroDivisionError else Inr (x ^ e mod m))"
proof -
  let ?ws = "map (same_width_window e w) [0..<nat \<lceil>real (bit_length e) / real w\<rceil>]"
  have part: "partition_window_same_width e w = Inr (?ws, w)"
    by (rule partition_window_same_width_valid [OF assms])
  show ?thesis
  proof (cases "m = 0")
    case True
    with part show ?thesis
      by (simp add: pow_window_same_width_def pow_window_def replay_zero_modulus del: map_map)
  next
    case False
    have "\<forall>v \<in> set ?ws. w_value v < 2 ^ w" by simp
    then have "replay x m (?ws, w) = Inr (x ^ recombine_sum 0 ?ws mod m)"
      using same_width_nonempty [OF assms] by (intro replay_eq [OF False])
    with part False show ?thesis
      by (simp add: pow_window_same_width_def pow_window_def same_width_final(2) [OF assms(1)]
          del: map_map)
  qed
qed

lemma pow_window_exponent_zero:
  assumes "1 \<le> w"
  shows "pow_window_same_width x 0 m w = Some (Inl InvalidParameter)"
    and "pow_window_clnw x 0 m w = Some (Inl InvalidParameter)"
  using assms
  by (simp_all add: pow_window_same_width_def pow_window_clnw_def pow_window_def
      partition_window_same_width_def partition_window_clnw_def)

lemmas clnw_eval = partition_window_clnw_def clnw_loop.simps clnw_body_def zw_scan.simps
  nw_scan.simps clnw_init_def bit_length.simps

section \<open>The claims\<close>

text \<open>
  C1. For every base, every modulus \<open>mod \<ge> 1\<close>, every exponent and every valid window
  parameter \<open>w\<close> (\<open>1 \<le> w \<le> bitLength(exp)\<close> for CLNW, and moreover \<open>w < bitLength(exp)\<close>
  for the fixed-width partitioner), \<open>pow_step_by_step\<close>, \<open>pow_binary\<close>,
  \<open>pow_window_clnw\<close> and \<open>pow_window_same_width\<close> all return the same value, and it is
  \<open>x ^ exp mod mod\<close>. An exponent that admits a valid window parameter is at least
  \<open>1\<close>; the base may be any integer.
\<close>

theorem pow_algorithms_agree:
  assumes "1 \<le> m" and "1 \<le> w" and "w \<le> bit_length e"
  shows "pow_step_by_step x e m = Inr (x ^ e mod m) \<and>
         pow_binary x e m = Inr (x ^ e mod m) \<and>
         pow_window_clnw x e m w = Some (Inr (x ^ e mod m)) \<and>
         (w < bit_length e \<longrightarrow> pow_window_same_width x e m w = Some (Inr (x ^ e mod m)))"
proof -
  from assms(1) have m: "m \<noteq> 0" by simp
  from assms(2,3) have "1 \<le> bit_length e" by simp
  then have e: "e \<noteq> 0" by (rule bit_length_ge_1)
  show ?thesis
    using m pow_step_by_step_eq [OF m e] pow_binary_eq [OF m e]
      pow_window_clnw_eq [OF assms(2,3)] pow_window_same_width_eq [OF assms(2)]
    by simp
qed

theorem pow_algorithms_agree_witness:
  "(1::int) \<le> 2048 \<and> (1::nat) \<le> 2 \<and> 2 \<le> bit_length 13 \<and> 2 < bit_length 13 \<and>
   pow_step_by_step 7 13 2048 = Inr 231 \<and>
   pow_binary 7 13 2048 = Inr 231 \<and>
   pow_window_clnw 7 13 2048 2 = Some (Inr 231) \<and>
   pow_window_same_width 7 13 2048 2 = Some (Inr 231)"
proof -
  have bl: "bit_length 13 = 4" by (simp add: bit_length.simps)
  have h1: "(1::int) \<le> 2048" and h2: "(1::nat) \<le> 2" and h3: "2 \<le> bit_length 13"
    by (simp_all add: bl)
  show ?thesis
    using pow_algorithms_agree [OF h1 h2 h3, of 7] by (simp add: bl)
qed

text \<open>
  C2, as stated: the lengths of the windows returned by either partitioner sum exactly
  to \<open>bitLength(exp)\<close>. Both partitioners give the most significant window its full
  length even when it reaches past the top bit of the exponent: \<open>0b11010111\<close> has
  8 bits and three fixed-width windows of length 3, and \<open>0b101\<close> has 3 bits and two
  CLNW windows of length 2.
\<close>

theorem window_lengths_sum_counterexample:
  "partition_window_same_width 215 3 =
     Inr ([\<lparr>w_value = 7, w_length = 3\<rparr>, \<lparr>w_value = 2, w_length = 3\<rparr>,
           \<lparr>w_value = 3, w_length = 3\<rparr>], 3) \<and>
   sum_list (map w_length [\<lparr>w_value = 7, w_length = 3\<rparr>, \<lparr>w_value = 2, w_length = 3\<rparr>,
           \<lparr>w_value = 3, w_length = 3\<rparr>]) \<noteq> bit_length 215 \<and>
   partition_window_clnw 5 2 =
     Some (Inr ([\<lparr>w_value = 1, w_length = 2\<rparr>, \<lparr>w_value = 1, w_length = 2\<rparr>], 2)) \<and>
   sum_list (map w_length [\<lparr>w_value = 1, w_length = 2\<rparr>, \<lparr>w_value = 1, w_length = 2\<rparr>])
     \<noteq> bit_length 5"
  by (simp add: partition_window_same_width_def same_width_window_def upt_rec clnw_eval)

text \<open>
  C2, amended: under a valid size parameter the lengths of the windows sum to at least
  \<open>bitLength(exp)\<close> and to less than \<open>bitLength(exp)\<close> plus the size parameter; for the
  fixed-width partitioner the sum is the window size times the number of windows.
\<close>

theorem window_lengths_sum:
  "(1 \<le> w \<and> w < bit_length e \<longrightarrow>
      (\<exists>ws ml. partition_window_same_width e w = Inr (ws, ml) \<and>
         sum_list (map w_length ws) = nat \<lceil>real (bit_length e) / real w\<rceil> * w \<and>
         bit_length e \<le> sum_list (map w_length ws) \<and>
         sum_list (map w_length ws) < bit_length e + w)) \<and>
   (1 \<le> w \<and> w \<le> bit_length e \<longrightarrow>
      (\<exists>ws ml. partition_window_clnw e w = Some (Inr (ws, ml)) \<and>
         bit_length e \<le> sum_list (map w_length ws) \<and>
         sum_list (map w_length ws) < bit_length e + w))"
proof (intro conjI impI)
  assume "1 \<le> w \<and> w < bit_length e"
  then have w: "1 \<le> w" and lt: "w < bit_length e" by simp_all
  show "\<exists>ws ml. partition_window_same_width e w = Inr (ws, ml) \<and>
      sum_list (map w_length ws) = nat \<lceil>real (bit_length e) / real w\<rceil> * w \<and>
      bit_length e \<le> sum_list (map w_length ws) \<and>
      sum_list (map w_length ws) < bit_length e + w"
    using partition_window_same_width_valid [OF w lt]
      same_width_final(3,4,5) [OF w, of e]
    by blast
next
  assume "1 \<le> w \<and> w \<le> bit_length e"
  then have w: "1 \<le> w" and le: "w \<le> bit_length e" by simp_all
  from partition_window_clnw_valid [OF w le] obtain s
    where "partition_window_clnw e w = Some (Inr (window_partitions s, max_length s))"
      and "clnw_inv e w s" and "bit_length e \<le> position s"
    by blast
  then show "\<exists>ws ml. partition_window_clnw e w = Some (Inr (ws, ml)) \<and>
      bit_length e \<le> sum_list (map w_length ws) \<and>
      sum_list (map w_length ws) < bit_length e + w"
    using clnw_inv_final(3,4) by blast
qed

theorem window_lengths_sum_witness:
  "(1::nat) \<le> 3 \<and> 3 < bit_length 215 \<and> 3 \<le> bit_length 215 \<and>
   (\<exists>ws ml. partition_window_same_width 215 3 = Inr (ws, ml) \<and>
      sum_list (map w_length ws) = nat \<lceil>real (bit_length 215) / real (3::nat)\<rceil> * 3 \<and>
      bit_length 215 \<le> sum_list (map w_length ws) \<and>
      sum_list (map w_length ws) < bit_length 215 + 3) \<and>
   (\<exists>ws ml. partition_window_clnw 215 3 = Some (Inr (ws, ml)) \<and>
      bit_length 215 \<le> sum_list (map w_length ws) \<and>
      sum_list (map w_length ws) < bit_length 215 + 3)"
proof -
  have h: "(1::nat) \<le> 3 \<and> 3 < bit_length 215 \<and> 3 \<le> bit_length 215"
    by (simp add: bit_length.simps)
  with window_lengths_sum [of 3 215] show ?thesis by blast
qed

text \<open>
  C3, as stated: with exponent \<open>0\<close> each of the four algorithms returns \<open>1 mod mod\<close>, in
  particular \<open>0\<close> when \<open>mod = 1\<close>. With exponent \<open>0\<close> the two baseline algorithms return
  the initial accumulator \<open>1\<close> unreduced, also when \<open>mod = 1\<close>, and the windowed
  algorithm returns nothing: the exponent has bit length \<open>0\<close>, so the guard of either
  partitioner rejects every size parameter.
\<close>

theorem exponent_zero_counterexample:
  "pow_step_by_step 2 0 1 = Inr 1 \<and> pow_binary 2 0 1 = Inr 1 \<and> (1::int) mod 1 \<noteq> 1 \<and>
   pow_window_same_width 2 0 5 1 = Some (Inl InvalidParameter) \<and>
   pow_window_clnw 2 0 5 1 = Some (Inl InvalidParameter)"
  by (simp add: pow_step_by_step_def pow_binary_def binary_loop.simps
      pow_window_same_width_def pow_window_clnw_def pow_window_def
      partition_window_same_width_def partition_window_clnw_def)

text \<open>
  C3, amended: for every modulus \<open>mod \<ge> 2\<close>, \<open>pow_step_by_step\<close> and \<open>pow_binary\<close> called
  with exponent \<open>0\<close> return \<open>1 = 1 mod mod\<close>; the windowed algorithm called with exponent
  \<open>0\<close> and a size parameter \<open>\<ge> 1\<close> fails with \<open>InvalidParameter\<close> for either partitioner;
  and with \<open>mod = 1\<close> every algorithm returns \<open>0\<close> on every exponent \<open>\<ge> 1\<close> (the windowed
  ones under a valid size parameter).
\<close>

theorem exponent_zero_modulus_one:
  "(2 \<le> m \<longrightarrow> pow_step_by_step x 0 m = Inr (1 mod m) \<and> pow_binary x 0 m = Inr (1 mod m)) \<and>
   (1 \<le> w \<longrightarrow> pow_window_same_width x 0 m w = Some (Inl InvalidParameter) \<and>
      pow_window_clnw x 0 m w = Some (Inl InvalidParameter)) \<and>
   (1 \<le> e \<longrightarrow> pow_step_by_step x e 1 = Inr 0 \<and> pow_binary x e 1 = Inr 0) \<and>
   (1 \<le> w \<and> w \<le> bit_length e \<longrightarrow> pow_window_clnw x e 1 w = Some (Inr 0)) \<and>
   (1 \<le> w \<and> w < bit_length e \<longrightarrow> pow_window_same_width x e 1 w = Some (Inr 0))"
proof (intro conjI impI)
  assume "2 \<le> m"
  then have "1 mod m = 1" by simp
  then show "pow_step_by_step x 0 m = Inr (1 mod m)"
    and "pow_binary x 0 m = Inr (1 mod m)"
    by (simp_all add: pow_step_by_step_def pow_binary_def binary_loop.simps)
next
  assume "1 \<le> w"
  then show "pow_window_same_width x 0 m w = Some (Inl InvalidParameter)"
    and "pow_window_clnw x 0 m w = Some (Inl InvalidParameter)"
    by (rule pow_window_exponent_zero)+
next
  assume "1 \<le> e"
  then have "e \<noteq> 0" by simp
  then show "pow_step_by_step x e 1 = Inr 0" and "pow_binary x e 1 = Inr 0"
    using pow_step_by_step_eq [of 1 e x] pow_binary_eq [of 1 e x] by simp_all
next
  assume "1 \<le> w \<and> w \<le> bit_length e"
  then show "pow_window_clnw x e 1 w = Some (Inr 0)"
    using pow_window_clnw_eq [of w e x 1] by simp
next
  assume "1 \<le> w \<and> w < bit_length e"
  then show "pow_window_same_width x e 1 w = Some (Inr 0)"
    using pow_window_same_width_eq [of w e x 1] by simp
qed

theorem exponent_zero_modulus_one_witness:
  "(2::int) \<le> 5 \<and> pow_step_by_step 2 0 5 = Inr (1 mod 5) \<and> pow_binary 2 0 5 = Inr (1 mod 5) \<and>
   (1::nat) \<le> 2 \<and> pow_window_same_width 2 0 5 2 = Some (Inl InvalidParameter) \<and>
   pow_window_clnw 2 0 5 2 = Some (Inl InvalidParameter) \<and>
   (1::nat) \<le> 13 \<and> pow_step_by_step 2 13 1 = Inr 0 \<and> pow_binary 2 13 1 = Inr 0 \<and>
   2 \<le> bit_length 13 \<and> pow_window_clnw 2 13 1 2 = Some (Inr 0) \<and>
   2 < bit_length 13 \<and> pow_window_same_width 2 13 1 2 = Some (Inr 0)"
proof -
  have h: "(2::int) \<le> 5 \<and> (1::nat) \<le> 2 \<and> (1::nat) \<le> 13 \<and> 2 \<le> bit_length 13 \<and>
      2 < bit_length 13"
    by (simp add: bit_length.simps)
  with exponent_zero_modulus_one [of 5 2 2 13] show ?thesis by blast
qed

text \<open>
  C4, as stated: every window with a nonzero value returned by the CLNW partitioner
  has its most significant bit set, \<open>2 ^ (length - 1) \<le> value\<close>. The scan runs from
  the least significant bit, so the bit that opens a nonzero window is its lowest one:
  the first window of \<open>0b111001010001\<close> for size \<open>3\<close> is \<open>0b001\<close>.
\<close>

theorem clnw_nonzero_window_counterexample:
  "partition_window_clnw 3665 3 =
     Some (Inr ([\<lparr>w_value = 1, w_length = 3\<rparr>, \<lparr>w_value = 0, w_length = 1\<rparr>,
                 \<lparr>w_value = 5, w_length = 3\<rparr>, \<lparr>w_value = 0, w_length = 2\<rparr>,
                 \<lparr>w_value = 7, w_length = 3\<rparr>], 3)) \<and>
   w_value \<lparr>w_value = 1, w_length = 3\<rparr> \<noteq> 0 \<and>
   \<not> (2 ^ (w_length \<lparr>w_value = 1, w_length = 3\<rparr> - 1) \<le> w_value \<lparr>w_value = 1, w_length = 3\<rparr>)"
  by (simp add: clnw_eval)

text \<open>
  C4, amended: for every \<open>d\<close> with \<open>1 \<le> d \<le> bitLength(exp)\<close> (so \<open>exp \<ge> 1\<close>), every
  window with a nonzero value returned by the CLNW partitioner has its least
  significant bit set and satisfies \<open>value < 2 ^ length\<close>.
\<close>

theorem clnw_nonzero_window_low_bit:
  assumes "1 \<le> d" and "d \<le> bit_length e"
  shows "\<exists>ws ml. partition_window_clnw e d = Some (Inr (ws, ml)) \<and>
           (\<forall>w \<in> set ws. w_value w \<noteq> 0 \<longrightarrow> odd (w_value w) \<and> w_value w < 2 ^ w_length w)"
proof -
  from partition_window_clnw_valid [OF assms] obtain s
    where part: "partition_window_clnw e d = Some (Inr (window_partitions s, max_length s))"
      and inv: "clnw_inv e d s"
    by blast
  from inv have "\<forall>w \<in> set (window_partitions s).
      w_value w \<noteq> 0 \<longrightarrow> odd (w_value w) \<and> w_value w < 2 ^ w_length w"
    by (auto simp: clnw_inv_def)
  with part show ?thesis by blast
qed

theorem clnw_nonzero_window_low_bit_witness:
  "(1::nat) \<le> 3 \<and> 3 \<le> bit_length 3665 \<and>
   (\<exists>ws ml. partition_window_clnw 3665 3 = Some (Inr (ws, ml)) \<and>
      (\<forall>w \<in> set ws. w_value w \<noteq> 0 \<longrightarrow> odd (w_value w) \<and> w_value w < 2 ^ w_length w))"
proof -
  have h1: "(1::nat) \<le> 3" and h2: "3 \<le> bit_length 3665"
    by (simp_all add: bit_length.simps)
  from clnw_nonzero_window_low_bit [OF h1 h2] h1 h2 show ?thesis by blast
qed

text \<open>
  C5. For every exponent and every valid size parameter (which makes the exponent at
  least \<open>1\<close>), recombining the window sequence returned by either partitioner, OR-ing
  or summing each window's value shifted left by the total length of the windows
  before it, gives back the exponent.
\<close>

theorem windows_recombine:
  "(1 \<le> w \<and> w < bit_length e \<longrightarrow>
      (\<exists>ws ml. partition_window_same_width e w = Inr (ws, ml) \<and>
         recombine_or 0 ws = e \<and> recombine_sum 0 ws = e)) \<and>
   (1 \<le> w \<and> w \<le> bit_length e \<longrightarrow>
      (\<exists>ws ml. partition_window_clnw e w = Some (Inr (ws, ml)) \<and>
         recombine_or 0 ws = e \<and> recombine_sum 0 ws = e))"
proof (intro conjI impI)
  assume "1 \<le> w \<and> w < bit_length e"
  then have w: "1 \<le> w" and lt: "w < bit_length e" by simp_all
  show "\<exists>ws ml. partition_window_same_width e w = Inr (ws, ml) \<and>
      recombine_or 0 ws = e \<and> recombine_sum 0 ws = e"
    using partition_window_same_width_valid [OF w lt] same_width_final(1,2) [OF w, of e]
    by blast
next
  assume "1 \<le> w \<and> w \<le> bit_length e"
  then have w: "1 \<le> w" and le: "w \<le> bit_length e" by simp_all
  from partition_window_clnw_valid [OF w le] obtain s
    where "partition_window_clnw e w = Some (Inr (window_partitions s, max_length s))"
      and "clnw_inv e w s" and "bit_length e \<le> position s"
    by blast
  then show "\<exists>ws ml. partition_window_clnw e w = Some (Inr (ws, ml)) \<and>
      recombine_or 0 ws = e \<and> recombine_sum 0 ws = e"
    using clnw_inv_final(1,2) by blast
qed

theorem windows_recombine_witness:
  "(1::nat) \<le> 3 \<and> 3 < bit_length 215 \<and> 3 \<le> bit_length 215 \<and>
   (\<exists>ws ml. partition_window_same_width 215 3 = Inr (ws, ml) \<and>
      recombine_or 0 ws = 215 \<and> recombine_sum 0 ws = 215) \<and>
   (\<exists>ws ml. partition_window_clnw 215 3 = Some (Inr (ws, ml)) \<and>
      recombine_or 0 ws = 215 \<and> recombine_sum 0 ws = 215)"
proof -
  have h: "(1::nat) \<le> 3 \<and> 3 < bit_length 215 \<and> 3 \<le> bit_length 215"
    by (simp add: bit_length.simps)
  with windows_recombine [of 3 215] show ?thesis by blast
qed

text \<open>
  C6. For every exponent and every \<open>w\<close> with \<open>1 \<le> w < bitLength(exp)\<close>, the fixed-width
  partitioner returns exactly \<open>ceil(bitLength(exp) / w)\<close> windows, the least number of
  windows of length \<open>w\<close> that cover the exponent's bits; window \<open>i\<close> has the value
  \<open>(exp >> (i * w)) & (2 ^ w - 1)\<close> and the length \<open>w\<close>, and the reported maximal
  length is \<open>w\<close>. In particular \<open>0b11010111\<close> with \<open>w = 3\<close> gives the values
  \<open>0b111\<close>, \<open>0b010\<close>, \<open>0b11\<close>.
\<close>

theorem same_width_windows:
  assumes "1 \<le> w" and "w < bit_length e"
  shows "(\<exists>ws. partition_window_same_width e w = Inr (ws, w) \<and>
            length ws = nat \<lceil>real (bit_length e) / real w\<rceil> \<and>
            bit_length e \<le> length ws * w \<and> length ws * w < bit_length e + w \<and>
            (\<forall>i < length ws.
               w_value (ws ! i) = drop_bit (i * w) e AND (2 ^ w - 1) \<and>
               w_length (ws ! i) = w)) \<and>
         partition_window_same_width 215 3 =
           Inr ([\<lparr>w_value = 7, w_length = 3\<rparr>, \<lparr>w_value = 2, w_length = 3\<rparr>,
                 \<lparr>w_value = 3, w_length = 3\<rparr>], 3)"
proof
  let ?n = "nat \<lceil>real (bit_length e) / real w\<rceil>"
  let ?ws = "map (same_width_window e w) [0..<?n]"
  from assms(1) have pos: "0 < w" by simp
  have "partition_window_same_width e w = Inr (?ws, w)"
    by (rule partition_window_same_width_valid [OF assms])
  moreover have "length ?ws = ?n" by simp
  moreover have "bit_length e \<le> length ?ws * w" and "length ?ws * w < bit_length e + w"
    using ceiling_quotient_bounds [OF pos, of "bit_length e"] by simp_all
  moreover have "\<forall>i < length ?ws.
      w_value (?ws ! i) = drop_bit (i * w) e AND (2 ^ w - 1) \<and> w_length (?ws ! i) = w"
    by (simp add: same_width_window_def and.commute)
  ultimately show "\<exists>ws. partition_window_same_width e w = Inr (ws, w) \<and>
      length ws = ?n \<and> bit_length e \<le> length ws * w \<and> length ws * w < bit_length e + w \<and>
      (\<forall>i < length ws.
         w_value (ws ! i) = drop_bit (i * w) e AND (2 ^ w - 1) \<and> w_length (ws ! i) = w)"
    by blast
  show "partition_window_same_width 215 3 =
      Inr ([\<lparr>w_value = 7, w_length = 3\<rparr>, \<lparr>w_value = 2, w_length = 3\<rparr>,
            \<lparr>w_value = 3, w_length = 3\<rparr>], 3)"
    by (simp add: partition_window_same_width_def same_width_window_def upt_rec
        bit_length.simps)
qed

theorem same_width_windows_witness:
  "(1::nat) \<le> 5 \<and> 5 < bit_length 98 \<and>
   (\<exists>ws. partition_window_same_width 98 5 = Inr (ws, 5) \<and>
      length ws = nat \<lceil>real (bit_length 98) / real (5::nat)\<rceil> \<and>
      bit_length 98 \<le> length ws * 5 \<and> length ws * 5 < bit_length 98 + 5 \<and>
      (\<forall>i < length ws.
         w_value (ws ! i) = drop_bit (i * 5) 98 AND (2 ^ 5 - 1) \<and> w_length (ws ! i) = 5))"
proof -
  have h1: "(1::nat) \<le> 5" and h2: "5 < bit_length 98"
    by (simp_all add: bit_length.simps)
  from same_width_windows [OF h1 h2] h1 h2 show ?thesis by blast
qed

text \<open>
  C7, as stated: in a CLNW window sequence no two adjacent windows are both nonzero
  windows, except possibly at the boundaries of the sequence. After a nonzero window
  the scan opens another one whenever the next bit is set: \<open>0b11111111\<close> with size
  \<open>2\<close> gives four nonzero windows, and the second and the third are adjacent and
  away from both ends.
\<close>

theorem clnw_alternation_counterexample:
  "partition_window_clnw 255 2 =
     Some (Inr ([\<lparr>w_value = 3, w_length = 2\<rparr>, \<lparr>w_value = 3, w_length = 2\<rparr>,
                 \<lparr>w_value = 3, w_length = 2\<rparr>, \<lparr>w_value = 3, w_length = 2\<rparr>], 2)) \<and>
   w_value ([\<lparr>w_value = 3, w_length = 2\<rparr>, \<lparr>w_value = 3, w_length = 2\<rparr>,
             \<lparr>w_value = 3, w_length = 2\<rparr>, \<lparr>w_value = 3, w_length = 2\<rparr>] ! 1) \<noteq> 0 \<and>
   w_value ([\<lparr>w_value = 3, w_length = 2\<rparr>, \<lparr>w_value = 3, w_length = 2\<rparr>,
             \<lparr>w_value = 3, w_length = 2\<rparr>, \<lparr>w_value = 3, w_length = 2\<rparr>] ! 2) \<noteq> 0"
  by (simp add: clnw_eval)

text \<open>
  C7, amended: in every window sequence returned by the CLNW partitioner for
  \<open>1 \<le> d \<le> bitLength(exp)\<close>, every window with a nonzero value has length exactly
  \<open>d\<close>, every window with value \<open>0\<close> has positive length, and no two adjacent windows
  are both zero windows. (Adjacent nonzero windows do occur.)
\<close>

theorem clnw_window_structure:
  assumes "1 \<le> d" and "d \<le> bit_length e"
  shows "\<exists>ws ml. partition_window_clnw e d = Some (Inr (ws, ml)) \<and>
           (\<forall>w \<in> set ws. (w_value w \<noteq> 0 \<longrightarrow> w_length w = d) \<and>
                          (w_value w = 0 \<longrightarrow> 0 < w_length w)) \<and>
           (\<forall>i. Suc i < length ws \<longrightarrow>
                \<not> (w_value (ws ! i) = 0 \<and> w_value (ws ! Suc i) = 0))"
proof -
  from partition_window_clnw_valid [OF assms] obtain s
    where part: "partition_window_clnw e d = Some (Inr (window_partitions s, max_length s))"
      and inv: "clnw_inv e d s"
    by blast
  from inv have "\<forall>w \<in> set (window_partitions s).
      (w_value w \<noteq> 0 \<longrightarrow> w_length w = d) \<and> (w_value w = 0 \<longrightarrow> 0 < w_length w)"
    by (auto simp: clnw_inv_def)
  moreover from inv have "\<forall>i. Suc i < length (window_partitions s) \<longrightarrow>
      \<not> (w_value (window_partitions s ! i) = 0 \<and> w_value (window_partitions s ! Suc i) = 0)"
    by (simp add: clnw_inv_def)
  ultimately show ?thesis using part by blast
qed

theorem clnw_window_structure_witness:
  "(1::nat) \<le> 3 \<and> 3 \<le> bit_length 3665 \<and>
   (\<exists>ws ml. partition_window_clnw 3665 3 = Some (Inr (ws, ml)) \<and>
      (\<forall>w \<in> set ws. (w_value w \<noteq> 0 \<longrightarrow> w_length w = 3) \<and>
                     (w_value w = 0 \<longrightarrow> 0 < w_length w)) \<and>
      (\<forall>i. Suc i < length ws \<longrightarrow>
           \<not> (w_value (ws ! i) = 0 \<and> w_value (ws ! Suc i) = 0)))"
proof -
  have h1: "(1::nat) \<le> 3" and h2: "3 \<le> bit_length 3665"
    by (simp_all add: bit_length.simps)
  from clnw_window_structure [OF h1 h2] h1 h2 show ?thesis by blast
qed

text \<open>
  C8. For every exponent and every size parameter \<open>\<ge> 1\<close>: the fixed-width partitioner
  raises \<open>InvalidParameter\<close> exactly when \<open>w \<ge> bitLength(exp)\<close>, the CLNW partitioner
  exactly when \<open>d > bitLength(exp)\<close>, and on all other inputs each of them returns a
  partition.
\<close>

theorem partitioner_errors:
  assumes "1 \<le> w"
  shows "(partition_window_same_width e w = Inl InvalidParameter \<longleftrightarrow> bit_length e \<le> w) \<and>
         (w < bit_length e \<longrightarrow> (\<exists>p. partition_window_same_width e w = Inr p)) \<and>
         (partition_window_clnw e w = Some (Inl InvalidParameter) \<longleftrightarrow> bit_length e < w) \<and>
         (w \<le> bit_length e \<longrightarrow> (\<exists>p. partition_window_clnw e w = Some (Inr p)))"
proof (intro conjI impI)
  show "partition_window_same_width e w = Inl InvalidParameter \<longleftrightarrow> bit_length e \<le> w"
    using assms by (simp add: partition_window_same_width_def)
  show "partition_window_clnw e w = Some (Inl InvalidParameter) \<longleftrightarrow> bit_length e < w"
    by (simp add: partition_window_clnw_def split: option.split)
next
  assume "w < bit_length e"
  then show "\<exists>p. partition_window_same_width e w = Inr p"
    using partition_window_same_width_valid [OF assms] by blast
next
  assume "w \<le> bit_length e"
  then show "\<exists>p. partition_window_clnw e w = Some (Inr p)"
    using partition_window_clnw_valid [OF assms] by blast
qed

theorem partitioner_errors_witness:
  "(1::nat) \<le> 3 \<and> 3 < bit_length 215 \<and> 3 \<le> bit_length 215 \<and>
   (\<exists>p. partition_window_same_width 215 3 = Inr p) \<and>
   (\<exists>p. partition_window_clnw 215 3 = Some (Inr p)) \<and>
   (1::nat) \<le> 9 \<and> bit_length 215 \<le> 9 \<and> bit_length 215 < 9 \<and>
   partition_window_same_width 215 9 = Inl InvalidParameter \<and>
   partition_window_clnw 215 9 = Some (Inl InvalidParameter)"
proof -
  have bl: "bit_length 215 = 8" by (simp add: bit_length.simps)
  have h3: "(1::nat) \<le> 3" and h9: "(1::nat) \<le> 9" by simp_all
  show ?thesis
    using partitioner_errors [OF h3, of 215] partitioner_errors [OF h9, of 215]
    by (simp add: bl)
qed

text \<open>
  C9. Under a valid size parameter (which makes the exponent at least \<open>1\<close>) both
  partitioners return a non-empty window sequence and a maximal length \<open>ml\<close> with
  \<open>value < 2 ^ ml\<close> for every window. Hence, whenever the table of powers is built
  (the modulus is not \<open>0\<close>), it has \<open>2 ^ ml\<close> entries and the lookup of any window's value
  succeeds, and \<open>pow_window\<close> never raises \<open>IndexError\<close>.
\<close>

theorem window_values_index_table:
  "(1 \<le> w \<and> w < bit_length e \<longrightarrow>
      (\<exists>ws ml. partition_window_same_width e w = Inr (ws, ml) \<and> ws \<noteq> [] \<and>
         (\<forall>v \<in> set ws. w_value v < 2 ^ ml) \<and>
         (m \<noteq> 0 \<longrightarrow> (\<exists>powers. precompute_powers x m ml = Inr powers \<and>
            length powers = 2 ^ ml \<and>
            (\<forall>v \<in> set ws. py_index powers (w_value v) = Inr (x ^ w_value v mod m))))) \<and>
      pow_window_same_width x e m w \<noteq> Some (Inl IndexError)) \<and>
   (1 \<le> w \<and> w \<le> bit_length e \<longrightarrow>
      (\<exists>ws ml. partition_window_clnw e w = Some (Inr (ws, ml)) \<and> ws \<noteq> [] \<and>
         (\<forall>v \<in> set ws. w_value v < 2 ^ ml) \<and>
         (m \<noteq> 0 \<longrightarrow> (\<exists>powers. precompute_powers x m ml = Inr powers \<and>
            length powers = 2 ^ ml \<and>
            (\<forall>v \<in> set ws. py_index powers (w_value v) = Inr (x ^ w_value v mod m))))) \<and>
      pow_window_clnw x e m w \<noteq> Some (Inl IndexError))"
proof -
  have table: "m \<noteq> 0 \<longrightarrow> (\<exists>powers. precompute_powers x m ml = Inr powers \<and>
      length powers = 2 ^ ml \<and>
      (\<forall>v \<in> set ws. py_index powers (w_value v) = Inr (x ^ w_value v mod m)))"
    if "\<forall>v \<in> set ws. w_value v < 2 ^ ml" for ws :: "window list" and ml
    using that by (simp add: precompute_powers_def py_index_def)
  show ?thesis
  proof (intro conjI impI)
    assume "1 \<le> w \<and> w < bit_length e"
    then have w: "1 \<le> w" and lt: "w < bit_length e" by simp_all
    let ?ws = "map (same_width_window e w) [0..<nat \<lceil>real (bit_length e) / real w\<rceil>]"
    have bounded: "\<forall>v \<in> set ?ws. w_value v < 2 ^ w" by simp
    show "\<exists>ws ml. partition_window_same_width e w = Inr (ws, ml) \<and> ws \<noteq> [] \<and>
        (\<forall>v \<in> set ws. w_value v < 2 ^ ml) \<and>
        (m \<noteq> 0 \<longrightarrow> (\<exists>powers. precompute_powers x m ml = Inr powers \<and>
           length powers = 2 ^ ml \<and>
           (\<forall>v \<in> set ws. py_index powers (w_value v) = Inr (x ^ w_value v mod m))))"
      using partition_window_same_width_valid [OF w lt] same_width_nonempty [OF w lt]
        bounded table [OF bounded]
      by blast
    show "pow_window_same_width x e m w \<noteq> Some (Inl IndexError)"
      by (simp add: pow_window_same_width_eq [OF w lt])
  next
    assume "1 \<le> w \<and> w \<le> bit_length e"
    then have w: "1 \<le> w" and le: "w \<le> bit_length e" by simp_all
    from partition_window_clnw_valid [OF w le] obtain s
      where part: "partition_window_clnw e w = Some (Inr (window_partitions s, max_length s))"
        and inv: "clnw_inv e w s" and fin: "bit_length e \<le> position s"
      by blast
    from w le have "1 \<le> bit_length e" by simp
    then have ne: "window_partitions s \<noteq> []"
      by (rule clnw_inv_nonempty [OF inv fin])
    have bounded: "\<forall>v \<in> set (window_partitions s). w_value v < 2 ^ max_length s"
      using clnw_inv_values_bounded(2) [OF inv] by blast
    show "\<exists>ws ml. partition_window_clnw e w = Some (Inr (ws, ml)) \<and> ws \<noteq> [] \<and>
        (\<forall>v \<in> set ws. w_value v < 2 ^ ml) \<and>
        (m \<noteq> 0 \<longrightarrow> (\<exists>powers. precompute_powers x m ml = Inr powers \<and>
           length powers = 2 ^ ml \<and>
           (\<forall>v \<in> set ws. py_index powers (w_value v) = Inr (x ^ w_value v mod m))))"
      using part ne bounded table [OF bounded] by blast
    show "pow_window_clnw x e m w \<noteq> Some (Inl IndexError)"
      by (simp add: pow_window_clnw_eq [OF w le])
  qed
qed

theorem window_values_index_table_witness:
  "(1::nat) \<le> 3 \<and> 3 < bit_length 215 \<and> 3 \<le> bit_length 215 \<and>
   (\<exists>ws ml. partition_window_same_width 215 3 = Inr (ws, ml) \<and> ws \<noteq> [] \<and>
      (\<forall>v \<in> set ws. w_value v < 2 ^ ml) \<and>
      ((7::int) \<noteq> 0 \<longrightarrow> (\<exists>powers. precompute_powers 2 7 ml = Inr powers \<and>
         length powers = 2 ^ ml \<and>
         (\<forall>v \<in> set ws. py_index powers (w_value v) = Inr (2 ^ w_value v mod 7))))) \<and>
   pow_window_same_width 2 215 7 3 \<noteq> Some (Inl IndexError) \<and>
   (\<exists>ws ml. partition_window_clnw 215 3 = Some (Inr (ws, ml)) \<and> ws \<noteq> [] \<and>
      (\<forall>v \<in> set ws. w_value v < 2 ^ ml) \<and>
      ((7::int) \<noteq> 0 \<longrightarrow> (\<exists>powers. precompute_powers 2 7 ml = Inr powers \<and>
         length powers = 2 ^ ml \<and>
         (\<forall>v \<in> set ws. py_index powers (w_value v) = Inr (2 ^ w_value v mod 7))))) \<and>
   pow_window_clnw 2 215 7 3 \<noteq> Some (Inl IndexError)"
proof -
  have h: "(1::nat) \<le> 3 \<and> 3 < bit_length 215 \<and> 3 \<le> bit_length 215"
    by (simp add: bit_length.simps)
  with window_values_index_table [of 3 215 7 2] show ?thesis by blast
qed

text \<open>
  C10. For every \<open>d\<close> with \<open>1 \<le> d \<le> bitLength(exp)\<close> (so \<open>exp \<ge> 1\<close>) the CLNW
  partitioner terminates: a zero-word scan started below the bit length halts on a
  set bit at or before the most significant bit position; the nonzero-word scan
  advances the position and the length by exactly \<open>d\<close>; and every iteration of the
  outer loop (entered with \<open>length = 0\<close> and the position below the bit length) ends,
  with \<open>length = 0\<close> again and a strictly larger position.
\<close>

theorem partition_window_clnw_terminates:
  assumes "1 \<le> d" and "d \<le> bit_length e"
  shows "(\<exists>p. partition_window_clnw e d = Some (Inr p)) \<and>
         (\<forall>pos len. pos < bit_length e \<longrightarrow>
            (\<exists>q. zw_scan e pos len = Some (q, len + (q - pos)) \<and>
                 pos \<le> q \<and> q \<le> bit_length e - 1 \<and> bit e q)) \<and>
         (\<forall>pos. nw_scan d pos 0 = (pos + d, d)) \<and>
         (\<forall>s. cur_length s = 0 \<and> position s < bit_length e \<longrightarrow>
            (\<exists>s'. clnw_body e d s = Some s' \<and> cur_length s' = 0 \<and>
                  position s < position s'))"
proof (intro conjI allI impI)
  show "\<exists>p. partition_window_clnw e d = Some (Inr p)"
    using partition_window_clnw_valid [OF assms] by blast
next
  fix pos len
  assume "pos < bit_length e"
  from zw_scan_stops [OF this, of len]
  show "\<exists>q. zw_scan e pos len = Some (q, len + (q - pos)) \<and>
      pos \<le> q \<and> q \<le> bit_length e - 1 \<and> bit e q"
    by auto
next
  fix pos
  show "nw_scan d pos 0 = (pos + d, d)"
    by (simp add: nw_scan_eq)
next
  fix s :: clnw_state
  assume "cur_length s = 0 \<and> position s < bit_length e"
  then have len0: "cur_length s = 0" and lt: "position s < bit_length e" by simp_all
  show "\<exists>s'. clnw_body e d s = Some s' \<and> cur_length s' = 0 \<and> position s < position s'"
  proof (cases "bit e (position s)")
    case True
    from clnw_body_nonzero [OF True len0, of d] assms(1) show ?thesis by simp
  next
    case False
    from clnw_body_zero [OF lt False len0, of d] show ?thesis by auto
  qed
qed

theorem partition_window_clnw_terminates_witness:
  "(1::nat) \<le> 3 \<and> 3 \<le> bit_length 3665 \<and>
   (\<exists>p. partition_window_clnw 3665 3 = Some (Inr p)) \<and>
   3 < bit_length 3665 \<and>
   (\<exists>q. zw_scan 3665 3 0 = Some (q, 0 + (q - 3)) \<and>
        3 \<le> q \<and> q \<le> bit_length 3665 - 1 \<and> bit (3665::nat) q) \<and>
   nw_scan 3 0 0 = (0 + 3, 3) \<and>
   cur_length clnw_init = 0 \<and> position clnw_init < bit_length 3665 \<and>
   (\<exists>s'. clnw_body 3665 3 clnw_init = Some s' \<and> cur_length s' = 0 \<and>
         position clnw_init < position s')"
proof -
  have h1: "(1::nat) \<le> 3" and h2: "3 \<le> bit_length 3665" and h3: "3 < bit_length 3665"
    and h4: "cur_length clnw_init = 0 \<and> position clnw_init < bit_length 3665"
    by (simp_all add: bit_length.simps clnw_init_def)
  from partition_window_clnw_terminates [OF h1 h2] h1 h2 h3 h4 show ?thesis by blast
qed

end
